theory Spec2Isabelle
  imports Main "HOL-Library.Word"
begin

unbundle bit_operations_syntax

section \<open>Machine arithmetic of the target\<close>

text \<open>
  The core is built for a 32-bit target: \<open>size_t\<close> and \<open>uint32_t\<close> are unsigned
  32-bit integers and \<open>ptrdiff_t\<close> is a signed 32-bit integer. Sizes are kept as
  natural numbers; wherever the source subtracts or adds them, the result is taken
  modulo \<open>2 ^ 32\<close> (\<open>u32\<close>), and where it converts such a result to \<open>ptrdiff_t\<close>
  the two's complement reading is taken (\<open>s32\<close>).
\<close>

definition u32 :: "int \<Rightarrow> nat" where
  "u32 x = nat (x mod 2 ^ 32)"

definition s32 :: "int \<Rightarrow> int" where
  "s32 x = (x + 2 ^ 31) mod 2 ^ 32 - 2 ^ 31"

type_synonym byte = "8 word"

section \<open>Data model\<close>

text \<open>
  What goes wrong in the source without a return value: a null pointer is dereferenced,
  memory outside a payload is read, or a destroyed context is used.
\<close>

datatype fault = NullDeref | OutOfBounds | UseAfterFree

datatype err_t = ERR_OK | ERR_MEM | ERR_ABRT | ERR_CONN | ERR_ARG

datatype tcp_state =
  CLOSED | LISTEN | SYN_SENT | SYN_RCVD | ESTABLISHED | FIN_WAIT_1 | FIN_WAIT_2
  | CLOSE_WAIT | CLOSING | LAST_ACK | TIME_WAIT

text \<open>
  The fields of the stack's \<open>tcp_pcb\<close> that the context reads or writes. \<open>snd_buf\<close> is
  what \<open>tcp_sndbuf\<close> reports.
\<close>

record tcp_pcb =
  pstate :: tcp_state
  so_options :: "8 word"
  keep_idle :: "32 word"
  keep_intvl :: "32 word"
  keep_cnt :: "32 word"
  snd_buf :: nat

text \<open>
  The calls the context makes into the stack and to its owner, in the order it makes
  them. \<open>TCP_WRITE n more copy\<close> is \<open>tcp_write\<close> of \<open>n\<close> bytes with the flags
  \<open>TCP_WRITE_FLAG_MORE\<close> and \<open>TCP_WRITE_FLAG_COPY\<close>.
\<close>

datatype call =
  TCP_ARG_NULL | TCP_SENT_NULL | TCP_RECV_NULL | TCP_ERR_NULL | TCP_POLL_NULL
  | TCP_ABORT | TCP_CLOSE | TCP_RECVED nat | TCP_OUTPUT | TCP_WRITE nat bool bool
  | PBUF_FREE | DISCARD_CB | DELETE_THIS

text \<open>
  A \<open>pbuf*\<close> is the list of the payloads of the chain it heads, the null pointer the
  empty list: for a chain \<open>b # bs\<close>, \<open>len\<close> is \<open>length b\<close>, \<open>next\<close> is \<open>bs\<close>, and
  \<open>pbuf_cat\<close> appends. The stack keeps \<open>tot_len\<close> in a \<open>u16_t\<close> and \<open>pbuf_cat\<close> adds
  to it in that type, so \<open>tot_len\<close> is the sum of all lengths modulo \<open>2 ^ 16\<close>.
\<close>

type_synonym pbuf = "byte list list"

definition tot_len :: "pbuf \<Rightarrow> nat" where
  "tot_len p = length (concat p) mod 65536"


lemma tot_len_mod: "tot_len p mod 65536 = tot_len p"
  by (simp add: tot_len_def)

record ClientContext =
  pcb :: "tcp_pcb option"
  rx_buf :: pbuf
  rx_buf_offset :: nat
  discard_cb :: bool
  datasource :: "byte list option"
  datalen :: nat
  written :: nat
  timeout_ms :: nat
  op_start_time :: nat
  send_waiting :: bool
  connect_pending :: bool
  refcnt :: "8 word"
  sync :: bool
  calls :: "call list"

section \<open>Receive buffer chain\<close>

text \<open>\<open>tcp_recved\<close> takes its length as a \<open>u16_t\<close>.\<close>

definition tcp_recved :: "nat \<Rightarrow> ClientContext \<Rightarrow> ClientContext" where
  "tcp_recved n s = s\<lparr>calls := calls s @ [TCP_RECVED (n mod 65536)]\<rparr>"

definition pbuf_free :: "ClientContext \<Rightarrow> ClientContext" where
  "pbuf_free s = s\<lparr>calls := calls s @ [PBUF_FREE]\<rparr>"

definition getSize :: "ClientContext \<Rightarrow> nat" where
  "getSize s =
     (if rx_buf s = [] then 0
      else u32 (int (tot_len (rx_buf s)) - int (rx_buf_offset s)))"

text \<open>\<open>_consume\<close>: \<open>left\<close> is computed in \<open>size_t\<close> and read as a \<open>ptrdiff_t\<close>.\<close>

definition consume :: "nat \<Rightarrow> ClientContext \<Rightarrow> fault + ClientContext" where
  "consume sz s =
     (case rx_buf s of
        [] \<Rightarrow> Inl NullDeref
      | b # bs \<Rightarrow>
          let left = s32 (int (length b) - int (rx_buf_offset s) - int sz);
              s1 = (if left > 0 then s\<lparr>rx_buf_offset := u32 (int (rx_buf_offset s) + int sz)\<rparr>
                    else if bs = [] then (pbuf_free s)\<lparr>rx_buf := [], rx_buf_offset := 0\<rparr>
                    else (pbuf_free s)\<lparr>rx_buf := bs, rx_buf_offset := 0\<rparr>)
          in Inr (if pcb s1 \<noteq> None then tcp_recved sz s1 else s1))"

text \<open>\<open>char read()\<close>.\<close>

definition read :: "ClientContext \<Rightarrow> fault + (byte \<times> ClientContext)" where
  "read s =
     (case rx_buf s of
        [] \<Rightarrow> Inr (0, s)
      | b # bs \<Rightarrow>
          if rx_buf_offset s < length b
          then (case consume 1 s of Inl e \<Rightarrow> Inl e | Inr s' \<Rightarrow> Inr (b ! rx_buf_offset s, s'))
          else Inl OutOfBounds)"

text \<open>
  The loop of \<open>size_t read(char* dst, size_t size)\<close>; \<open>acc\<close> is what has been copied
  to \<open>dst\<close> so far, so \<open>size_read\<close> is its length.
\<close>

function read_loop :: "nat \<Rightarrow> byte list \<Rightarrow> ClientContext \<Rightarrow> fault + (byte list \<times> ClientContext)" where
  "read_loop sz acc s =
     (if sz = 0 then Inr (acc, s)
      else (case rx_buf s of
        [] \<Rightarrow> Inl NullDeref
      | b # bs \<Rightarrow>
          let buf_size = u32 (int (length b) - int (rx_buf_offset s));
              copy_size = (if sz < buf_size then sz else buf_size)
          in if rx_buf_offset s + copy_size \<le> length b
             then (case consume copy_size s of
                     Inl e \<Rightarrow> Inl e
                   | Inr s' \<Rightarrow>
                       read_loop (sz - copy_size)
                         (acc @ take copy_size (drop (rx_buf_offset s) b)) s')
             else Inl OutOfBounds))"
  by pat_completeness auto

lemma u32_zero_s32: "u32 x = 0 \<Longrightarrow> s32 x = 0"
proof -
  assume "u32 x = 0"
  then have "x mod 2 ^ 32 = 0"
    by (simp add: u32_def)
  then have "(x + 2 ^ 31) mod 2 ^ 32 = (0 + 2 ^ 31) mod 2 ^ 32"
    by (metis mod_add_left_eq)
  then show ?thesis
    by (simp add: s32_def)
qed

lemma consume_length:
  "consume c s = Inr s' \<Longrightarrow> length (rx_buf s') \<le> length (rx_buf s)"
  by (auto simp: consume_def Let_def tcp_recved_def pbuf_free_def split: list.splits if_splits)

lemma consume_zero_shrinks:
  "rx_buf s = b # bs \<Longrightarrow> u32 (int (length b) - int (rx_buf_offset s)) = 0 \<Longrightarrow>
   consume 0 s = Inr s' \<Longrightarrow> length (rx_buf s') < length (rx_buf s)"
  by (auto simp: consume_def Let_def tcp_recved_def pbuf_free_def u32_zero_s32
      split: list.splits if_splits)

text \<open>
  The loop ends: a pass that copies nothing has met a head segment with nothing left,
  which \<open>_consume\<close> then drops.
\<close>

termination read_loop
proof (relation "measure (\<lambda>(sz, acc, s). sz + length (rx_buf s))", goal_cases)
  case 1
  show ?case by simp
next
  case (2 sz acc s b bs buf_size copy_size s')
  show ?case
  proof (cases "copy_size = 0")
    case True
    with 2 have "buf_size = 0"
      by (auto split: if_splits)
    with 2 True have "length (rx_buf s') < length (rx_buf s)"
      using consume_zero_shrinks[of s b bs s'] by simp
    with True show ?thesis by simp
  next
    case False
    moreover have "copy_size \<le> sz"
      using 2 by (auto split: if_splits)
    moreover have "length (rx_buf s') \<le> length (rx_buf s)"
      using 2 consume_length by blast
    ultimately show ?thesis
      using 2 by simp
  qed
qed

text \<open>
  \<open>size_t read(char* dst, size_t size)\<close>: the bytes copied to \<open>dst\<close>; the value returned
  is their number.
\<close>

definition read_buf :: "nat \<Rightarrow> ClientContext \<Rightarrow> fault + (byte list \<times> ClientContext)" where
  "read_buf sz s =
     (if rx_buf s = [] then Inr ([], s)
      else
        let max_size = u32 (int (tot_len (rx_buf s)) - int (rx_buf_offset s));
            sz' = (if sz < max_size then sz else max_size)
        in read_loop sz' [] s)"

definition peek :: "ClientContext \<Rightarrow> fault + byte" where
  "peek s =
     (case rx_buf s of
        [] \<Rightarrow> Inr 0
      | b # bs \<Rightarrow> if rx_buf_offset s < length b then Inr (b ! rx_buf_offset s) else Inl OutOfBounds)"

text \<open>\<open>peekBytes\<close>: the bytes copied to \<open>dst\<close>; the value returned is their number.\<close>

definition peekBytes :: "nat \<Rightarrow> ClientContext \<Rightarrow> fault + byte list" where
  "peekBytes sz s =
     (case rx_buf s of
        [] \<Rightarrow> Inr []
      | b # bs \<Rightarrow>
          let max_size = u32 (int (tot_len (rx_buf s)) - int (rx_buf_offset s));
              sz' = (if sz < max_size then sz else max_size);
              buf_size = u32 (int (length b) - int (rx_buf_offset s));
              copy_size = (if sz' < buf_size then sz' else buf_size)
          in if rx_buf_offset s + copy_size \<le> length b
             then Inr (take copy_size (drop (rx_buf_offset s) b))
             else Inl OutOfBounds)"

definition peekAvailable :: "ClientContext \<Rightarrow> nat" where
  "peekAvailable s =
     (case rx_buf s of
        [] \<Rightarrow> 0
      | b # bs \<Rightarrow> u32 (int (length b) - int (rx_buf_offset s)))"

definition peekConsume :: "nat \<Rightarrow> ClientContext \<Rightarrow> fault + ClientContext" where
  "peekConsume n s = consume n s"

definition discard_received :: "ClientContext \<Rightarrow> ClientContext" where
  "discard_received s =
     (if rx_buf s = [] then s
      else
        let s1 = (if pcb s \<noteq> None then tcp_recved (tot_len (rx_buf s)) s else s)
        in (pbuf_free s1)\<lparr>rx_buf := [], rx_buf_offset := 0\<rparr>)"

section \<open>Teardown of the transport handle\<close>

definition detach :: "ClientContext \<Rightarrow> ClientContext" where
  "detach s =
     s\<lparr>calls := calls s @ [TCP_ARG_NULL, TCP_SENT_NULL, TCP_RECV_NULL, TCP_ERR_NULL, TCP_POLL_NULL]\<rparr>"

definition abort :: "ClientContext \<Rightarrow> err_t \<times> ClientContext" where
  "abort s =
     (if pcb s \<noteq> None
      then (ERR_ABRT, (detach s)\<lparr>calls := calls (detach s) @ [TCP_ABORT], pcb := None\<rparr>)
      else (ERR_ABRT, s))"

text \<open>\<open>close\<close>; \<open>tcp_close_err\<close> is what the stack's \<open>tcp_close\<close> answers.\<close>

definition close :: "err_t \<Rightarrow> ClientContext \<Rightarrow> err_t \<times> ClientContext" where
  "close tcp_close_err s =
     (if pcb s \<noteq> None
      then
        let s1 = (detach s)\<lparr>calls := calls (detach s) @ [TCP_CLOSE]\<rparr>
        in if tcp_close_err \<noteq> ERR_OK
           then (ERR_ABRT, s1\<lparr>calls := calls s1 @ [TCP_ABORT], pcb := None\<rparr>)
           else (tcp_close_err, s1\<lparr>pcb := None\<rparr>)
      else (ERR_OK, s))"

section \<open>Callbacks of the stack\<close>

definition notify_error :: "ClientContext \<Rightarrow> ClientContext" where
  "notify_error s =
     (if connect_pending s \<or> send_waiting s
      then s\<lparr>send_waiting := False, connect_pending := False\<rparr>
      else s)"

text \<open>\<open>_recv\<close>; the empty chain is the null \<open>pb\<close> of a peer's close.\<close>

definition recv :: "pbuf \<Rightarrow> ClientContext \<Rightarrow> err_t \<times> ClientContext" where
  "recv pb s =
     (if pb = [] then
        let s1 = notify_error s
        in if rx_buf s1 \<noteq> [] \<and> tot_len (rx_buf s1) \<noteq> 0 then (ERR_OK, s1)
           else (ERR_ABRT, snd (abort s1))
      else if rx_buf s \<noteq> [] then (ERR_OK, s\<lparr>rx_buf := rx_buf s @ pb\<rparr>)
      else (ERR_OK, s\<lparr>rx_buf := pb, rx_buf_offset := 0\<rparr>))"

section \<open>The unread stream and the chain's invariant\<close>

text \<open>
  The unread bytes of a context are what its chain holds past the consumed offset.
  The invariant of the chain: every segment holds at least one byte (the stack hands
  over data, never an empty segment), the whole chain holds at most the 65535 bytes
  that the 16-bit \<open>tot_len\<close> of its head can count, and the offset lies inside the
  head segment.
\<close>

definition unread :: "ClientContext \<Rightarrow> byte list" where
  "unread s = drop (rx_buf_offset s) (concat (rx_buf s))"

definition rx_inv :: "ClientContext \<Rightarrow> bool" where
  "rx_inv s =
     (list_all (\<lambda>b. b \<noteq> []) (rx_buf s) \<and> length (concat (rx_buf s)) \<le> 65535 \<and>
      (case rx_buf s of [] \<Rightarrow> True | b # bs \<Rightarrow> rx_buf_offset s < length b))"

lemma u32_id: "0 \<le> x \<Longrightarrow> x < 2 ^ 32 \<Longrightarrow> u32 x = nat x"
  by (simp add: u32_def)

lemma s32_id: "- (2 ^ 31) \<le> x \<Longrightarrow> x < 2 ^ 31 \<Longrightarrow> s32 x = x"
  unfolding s32_def
  by (simp add: mod_pos_pos_trivial)

lemma getSize_unread: "rx_inv s \<Longrightarrow> getSize s = length (unread s)"
  by (auto simp: getSize_def unread_def rx_inv_def tot_len_def u32_id split: list.splits)

lemma rx_inv_head:
  assumes "rx_inv s" "rx_buf s = b # bs"
  shows "rx_buf_offset s < length b" "length b \<le> 65535" "unread s = drop (rx_buf_offset s) b @ concat bs"
    "list_all (\<lambda>b. b \<noteq> []) bs" "length (concat bs) \<le> 65535"
  using assms by (auto simp: rx_inv_def unread_def tot_len_def)

lemma consume_inv:
  assumes "rx_inv s" "rx_buf s = b # bs" "c \<le> length b - rx_buf_offset s"
  shows "\<exists>s'. consume c s = Inr s' \<and> rx_inv s' \<and> unread s' = drop c (unread s) \<and> pcb s' = pcb s"
proof -
  note h = rx_inv_head[OF assms(1,2)]
  let ?x = "int (length b) - int (rx_buf_offset s) - int c"
  have x: "s32 ?x = ?x" using h assms(3) by (intro s32_id) auto
  show ?thesis
  proof (cases "c < length b - rx_buf_offset s")
    case True
    then have "u32 (int (rx_buf_offset s) + int c) = rx_buf_offset s + c"
      using h by (simp add: u32_id)
    with True h assms show ?thesis
      by (auto simp: consume_def Let_def x tcp_recved_def rx_inv_def unread_def add.commute)
  next
    case False
    with assms(3) have c: "c = length b - rx_buf_offset s" by simp
    have "rx_inv (s\<lparr>rx_buf := bs, rx_buf_offset := 0\<rparr>)"
      using h by (cases bs) (auto simp: rx_inv_def)
    have z: "s32 0 = 0" by (simp add: s32_def)
    with c h assms show ?thesis
      by (cases bs) (auto simp: consume_def Let_def z tcp_recved_def pbuf_free_def rx_inv_def unread_def)
  qed
qed

lemma read_loop_inv:
  "rx_inv s \<Longrightarrow> sz \<le> length (unread s) \<Longrightarrow>
   \<exists>s'. read_loop sz acc s = Inr (acc @ take sz (unread s), s') \<and> rx_inv s' \<and>
        unread s' = drop sz (unread s) \<and> pcb s' = pcb s"
proof (induction sz acc s rule: read_loop.induct)
  case (1 sz acc s)
  show ?case
  proof (cases "sz = 0")
    case True
    with 1 show ?thesis by simp
  next
    case False
    with "1.prems" obtain b bs where rx: "rx_buf s = b # bs"
      by (cases "rx_buf s") (auto simp: unread_def)
    note h = rx_inv_head[OF "1.prems"(1) rx]
    define buf_size where "buf_size = u32 (int (length b) - int (rx_buf_offset s))"
    define copy_size where "copy_size = (if sz < buf_size then sz else buf_size)"
    have bs: "buf_size = length b - rx_buf_offset s"
      using h by (simp add: buf_size_def u32_id)
    have cs: "copy_size \<le> length b - rx_buf_offset s" "copy_size \<le> sz"
      by (auto simp: copy_size_def bs)
    from consume_inv[OF "1.prems"(1) rx cs(1)] obtain s1 where
      s1: "consume copy_size s = Inr s1" "rx_inv s1" "unread s1 = drop copy_size (unread s)"
        "pcb s1 = pcb s"
      by blast
    have le: "sz - copy_size \<le> length (unread s1)"
      using "1.prems"(2) s1(3) by simp
    have bound: "rx_buf_offset s + copy_size \<le> length b"
      using cs(1) h(1) by simp
    from "1.IH"[OF False rx buf_size_def copy_size_def bound s1(1) s1(2) le]
    obtain s' where s': "read_loop (sz - copy_size)
          (acc @ take copy_size (drop (rx_buf_offset s) b)) s1 =
        Inr ((acc @ take copy_size (drop (rx_buf_offset s) b)) @
             take (sz - copy_size) (unread s1), s')"
      "rx_inv s'" "unread s' = drop (sz - copy_size) (unread s1)" "pcb s' = pcb s1"
      by blast
    have tk: "take copy_size (drop (rx_buf_offset s) b) = take copy_size (unread s)"
      using cs(1) h(3) by simp
    have "take copy_size (unread s) @ take (sz - copy_size) (drop copy_size (unread s)) =
          take sz (unread s)"
      using cs(2) by (metis le_add_diff_inverse take_add)
    then have out: "(acc @ take copy_size (drop (rx_buf_offset s) b)) @
             take (sz - copy_size) (unread s1) = acc @ take sz (unread s)"
      by (simp add: tk s1(3))
    have dr: "drop (sz - copy_size) (unread s1) = drop sz (unread s)"
      using cs(2) by (simp add: s1(3))
    have "read_loop sz acc s = read_loop (sz - copy_size)
          (acc @ take copy_size (drop (rx_buf_offset s) b)) s1"
      using False rx bound s1(1)
      by (subst read_loop.simps) (simp add: Let_def buf_size_def[symmetric] copy_size_def[symmetric])
    with s' out dr s1(4) show ?thesis by simp
  qed
qed

lemma read_buf_inv:
  assumes "rx_inv s"
  shows "\<exists>s'. read_buf sz s = Inr (take sz (unread s), s') \<and> rx_inv s' \<and>
        unread s' = drop sz (unread s) \<and> pcb s' = pcb s"
proof (cases "rx_buf s = []")
  case True
  with assms show ?thesis by (simp add: read_buf_def unread_def)
next
  case False
  define m where "m = (if sz < length (unread s) then sz else length (unread s))"
  have m: "m \<le> length (unread s)" "take m (unread s) = take sz (unread s)"
    "drop m (unread s) = drop sz (unread s)"
    by (auto simp: m_def)
  have "read_buf sz s = read_loop m [] s"
    using False getSize_unread[OF assms]
    by (simp add: read_buf_def Let_def m_def getSize_def)
  with read_loop_inv[OF assms m(1), of "[]"] m show ?thesis by simp
qed

lemma read_inv:
  assumes "rx_inv s" "unread s \<noteq> []"
  shows "\<exists>s'. read s = Inr (hd (unread s), s') \<and> rx_inv s' \<and> unread s' = tl (unread s) \<and>
     pcb s' = pcb s"
proof -
  from assms(2) obtain b bs where rx: "rx_buf s = b # bs"
    by (cases "rx_buf s") (auto simp: unread_def)
  note h = rx_inv_head[OF assms(1) rx]
  have "1 \<le> length b - rx_buf_offset s" using h by simp
  from consume_inv[OF assms(1) rx this] obtain s' where
    s': "consume 1 s = Inr s'" "rx_inv s'" "unread s' = drop 1 (unread s)" "pcb s' = pcb s"
    by blast
  have hd: "hd (unread s) = b ! rx_buf_offset s"
    using h by (simp add: hd_append hd_drop_conv_nth)
  have tl: "drop 1 (unread s) = tl (unread s)"
    by (simp add: drop_Suc)
  show ?thesis
    using s'(1,2,4) s'(3)[unfolded tl] h(1) rx hd by (simp add: read_def)
qed

definition pbuf_ok :: "pbuf \<Rightarrow> bool" where
  "pbuf_ok pb = (pb \<noteq> [] \<and> list_all (\<lambda>b. b \<noteq> []) pb)"

lemma recv_inv:
  assumes "rx_inv s" "pbuf_ok pb" "length (concat (rx_buf s)) + length (concat pb) \<le> 65535"
  shows "fst (recv pb s) = ERR_OK \<and> rx_inv (snd (recv pb s)) \<and>
     unread (snd (recv pb s)) = unread s @ concat pb \<and> pcb (snd (recv pb s)) = pcb s \<and>
     length (concat (rx_buf (snd (recv pb s)))) = length (concat (rx_buf s)) + length (concat pb)"
proof (cases "rx_buf s")
  case Nil
  with assms show ?thesis
    by (auto simp: recv_def pbuf_ok_def rx_inv_def unread_def tot_len_def split: list.splits)
next
  case (Cons b bs)
  note h = rx_inv_head[OF assms(1) Cons]
  have "length (concat (rx_buf s)) = rx_buf_offset s + length (unread s)"
    using h(1) Cons by (simp add: unread_def)
  with Cons assms h show ?thesis
    by (auto simp: recv_def pbuf_ok_def rx_inv_def unread_def tot_len_def)
qed

section \<open>Arrival followed by reads\<close>

text \<open>
  The constructor: what a context holds when it has been created for a transport
  handle, with or without a discard callback, and with the global default of the
  synchronous-flush flag.
\<close>

definition new_context :: "tcp_pcb option \<Rightarrow> bool \<Rightarrow> bool \<Rightarrow> ClientContext" where
  "new_context p dcb sy =
     \<lparr>pcb = p, rx_buf = [], rx_buf_offset = 0, discard_cb = dcb, datasource = None,
      datalen = 0, written = 0, timeout_ms = 5000, op_start_time = 0, send_waiting = False,
      connect_pending = False, refcnt = 0, sync = sy, calls = []\<rparr>"

text \<open>
  A run of arrival callbacks, each with a chain of data (\<open>recv_all\<close>), and a run of
  reads in any mix of \<open>read()\<close> (\<open>RdByte\<close>) and \<open>read(dst, n)\<close> (\<open>RdBuf n\<close>), whose
  outputs are concatenated (\<open>reads\<close>). \<open>requested\<close> is the number of bytes the reads
  ask for. \<open>rd_ok a ops\<close> says that, with \<open>a\<close> bytes unread, no \<open>read()\<close> of \<open>ops\<close> is
  issued on an empty buffer (where it answers the sentinel 0); a \<open>read(dst, n)\<close> may
  ask for more than is there.
\<close>

fun recv_all :: "pbuf list \<Rightarrow> ClientContext \<Rightarrow> ClientContext" where
  "recv_all [] s = s"
| "recv_all (pb # pbs) s = recv_all pbs (snd (recv pb s))"

datatype rd = RdByte | RdBuf nat

fun reads :: "rd list \<Rightarrow> ClientContext \<Rightarrow> fault + (byte list \<times> ClientContext)" where
  "reads [] s = Inr ([], s)"
| "reads (RdByte # ops) s =
     (case read s of
        Inl e \<Rightarrow> Inl e
      | Inr (c, s1) \<Rightarrow>
          (case reads ops s1 of Inl e \<Rightarrow> Inl e | Inr (out, s') \<Rightarrow> Inr (c # out, s')))"
| "reads (RdBuf n # ops) s =
     (case read_buf n s of
        Inl e \<Rightarrow> Inl e
      | Inr (cs, s1) \<Rightarrow>
          (case reads ops s1 of Inl e \<Rightarrow> Inl e | Inr (out, s') \<Rightarrow> Inr (cs @ out, s')))"

fun requested :: "rd list \<Rightarrow> nat" where
  "requested [] = 0"
| "requested (RdByte # ops) = 1 + requested ops"
| "requested (RdBuf n # ops) = n + requested ops"

fun rd_ok :: "nat \<Rightarrow> rd list \<Rightarrow> bool" where
  "rd_ok a [] = True"
| "rd_ok a (RdByte # ops) = (0 < a \<and> rd_ok (a - 1) ops)"
| "rd_ok a (RdBuf n # ops) = rd_ok (a - n) ops"

lemma recv_all_inv:
  "rx_inv s \<Longrightarrow> list_all pbuf_ok pbs \<Longrightarrow>
   length (concat (rx_buf s)) + length (concat (concat pbs)) \<le> 65535 \<Longrightarrow>
   rx_inv (recv_all pbs s) \<and> unread (recv_all pbs s) = unread s @ concat (concat pbs) \<and>
   pcb (recv_all pbs s) = pcb s"
proof (induction pbs arbitrary: s)
  case Nil
  then show ?case by simp
next
  case (Cons pb pbs)
  from Cons.prems have ok: "pbuf_ok pb"
    and le: "length (concat (rx_buf s)) + length (concat pb) \<le> 65535"
    by simp_all
  note r = recv_inv[OF Cons.prems(1) ok le]
  have "length (concat (rx_buf (snd (recv pb s)))) + length (concat (concat pbs)) \<le> 65535"
    using r Cons.prems(3) by simp
  with Cons.IH[of "snd (recv pb s)"] r Cons.prems(2) show ?case
    by simp
qed

lemma reads_inv:
  "rx_inv s \<Longrightarrow> rd_ok (length (unread s)) ops \<Longrightarrow>
   \<exists>s'. reads ops s = Inr (take (requested ops) (unread s), s') \<and> rx_inv s' \<and>
        unread s' = drop (requested ops) (unread s) \<and> pcb s' = pcb s"
proof (induction ops arbitrary: s)
  case Nil
  then show ?case by simp
next
  case (Cons op ops)
  show ?case
  proof (cases op)
    case RdByte
    with Cons.prems have ne: "unread s \<noteq> []" by auto
    from read_inv[OF Cons.prems(1) ne] obtain s1 where
      s1: "read s = Inr (hd (unread s), s1)" "rx_inv s1" "unread s1 = tl (unread s)"
        "pcb s1 = pcb s"
      by blast
    have "rd_ok (length (unread s1)) ops"
      using Cons.prems(2) RdByte s1(3) by simp
    from Cons.IH[OF s1(2) this] obtain s' where
      s': "reads ops s1 = Inr (take (requested ops) (unread s1), s')" "rx_inv s'"
        "unread s' = drop (requested ops) (unread s1)" "pcb s' = pcb s1"
      by blast
    have "hd (unread s) # take (requested ops) (tl (unread s)) =
          take (Suc (requested ops)) (unread s)"
      using ne by (cases "unread s") simp_all
    moreover have "drop (requested ops) (tl (unread s)) = drop (Suc (requested ops)) (unread s)"
      by (simp add: drop_Suc)
    ultimately show ?thesis
      using RdByte s1 s' by simp
  next
    case (RdBuf n)
    from read_buf_inv[OF Cons.prems(1), of n] obtain s1 where
      s1: "read_buf n s = Inr (take n (unread s), s1)" "rx_inv s1"
        "unread s1 = drop n (unread s)" "pcb s1 = pcb s"
      by blast
    have "rd_ok (length (unread s1)) ops"
      using Cons.prems(2) RdBuf s1(3) by simp
    from Cons.IH[OF s1(2) this] obtain s' where
      s': "reads ops s1 = Inr (take (requested ops) (unread s1), s')" "rx_inv s'"
        "unread s' = drop (requested ops) (unread s1)" "pcb s' = pcb s1"
      by blast
    have "take n (unread s) @ take (requested ops) (drop n (unread s)) =
          take (n + requested ops) (unread s)"
      by (simp add: take_add)
    moreover have "drop (requested ops) (drop n (unread s)) = drop (n + requested ops) (unread s)"
      by (simp add: add.commute)
    ultimately show ?thesis
      using RdBuf s1 s' by simp
  qed
qed

text \<open>
  Claim C1, amended. Let arrival callbacks deliver the chains \<open>pbs\<close> to a context whose
  receive chain is empty, each chain non-null with data in every segment, and all of it
  together, the payload \<open>P\<close>, within the 65535 bytes the stack's 16-bit \<open>tot_len\<close> can
  count. Then \<open>getSize()\<close> before any read is \<open>|P|\<close>, and any run of \<open>read()\<close> and
  \<open>read(dst, n)\<close> calls, none of them a \<open>read()\<close> on an empty buffer, returns the bytes
  of \<open>P\<close> in their order of arrival: the outputs concatenated are the first
  \<open>requested ops\<close> bytes of \<open>P\<close>, and the rest is still readable.
\<close>

theorem arrival_then_reads:
  assumes "rx_buf s0 = []"
    and "list_all pbuf_ok pbs"
    and "length (concat (concat pbs)) \<le> 65535"
    and "rd_ok (length (concat (concat pbs))) ops"
  shows "getSize (recv_all pbs s0) = length (concat (concat pbs)) \<and>
    (\<exists>s'. reads ops (recv_all pbs s0) = Inr (take (requested ops) (concat (concat pbs)), s') \<and>
          getSize s' = length (concat (concat pbs)) - requested ops)"
proof -
  have inv0: "rx_inv s0" and u0: "unread s0 = []" and t0: "length (concat (rx_buf s0)) = 0"
    using assms(1) by (simp_all add: rx_inv_def unread_def)
  have r: "rx_inv (recv_all pbs s0)" "unread (recv_all pbs s0) = concat (concat pbs)"
    using recv_all_inv[OF inv0 assms(2)] assms(3) u0 t0 by simp_all
  have ok: "rd_ok (length (unread (recv_all pbs s0))) ops"
    using assms(4) r(2) by simp
  from reads_inv[OF r(1) ok] obtain s' where
    s': "reads ops (recv_all pbs s0) = Inr (take (requested ops) (unread (recv_all pbs s0)), s')"
      "rx_inv s'" "unread s' = drop (requested ops) (unread (recv_all pbs s0))"
    by blast
  show ?thesis
    using r s' getSize_unread[OF r(1)] getSize_unread[OF s'(2)] by auto
qed

theorem arrival_then_reads_witness:
  "getSize (recv_all [[[1, 2], [3]], [[4, 5]]] (new_context None False False)) = 5 \<and>
   (\<exists>s'. reads [RdBuf 2, RdByte, RdBuf 9]
           (recv_all [[[1, 2], [3]], [[4, 5]]] (new_context None False False)) =
         Inr ([1, 2, 3, 4, 5], s') \<and> getSize s' = 0)"
  using arrival_then_reads[of "new_context None False False" "[[[1, 2], [3]], [[4, 5]]]"
      "[RdBuf 2, RdByte, RdBuf 9]"]
  by (simp add: new_context_def pbuf_ok_def)

text \<open>
  Two arrivals of 40000 bytes each make a payload of 80000 bytes of which \<open>getSize()\<close>
  reports 14464, the sum in 16 bits. A chain that arrives with an empty head segment
  before a segment with one byte has \<open>getSize()\<close> 1, and \<open>read()\<close> on it reads beyond the
  empty payload instead of returning that byte.
\<close>

theorem arrival_then_reads_counterexample:
  "getSize (recv_all [[replicate 40000 0], [replicate 40000 0]] (new_context None False False)) =
     14464 \<and>
   length (concat (concat [[replicate 40000 (0 :: byte)], [replicate 40000 0]])) = 80000 \<and>
   getSize (recv_all [[[], [7]]] (new_context None False False)) = 1 \<and>
   reads [RdByte] (recv_all [[[], [7]]] (new_context None False False)) = Inl OutOfBounds"
  by (simp add: new_context_def recv_def getSize_def tot_len_def u32_def read_def)

section \<open>Operations on the context, one at a time\<close>

text \<open>
  The operations that touch the receive chain, as steps on the context. \<open>peek\<close> and
  \<open>peekBytes\<close> are \<open>const\<close> member functions: their step hands back the context it
  was given. \<open>Recv []\<close> is the peer's close, \<open>Close e\<close> a \<open>close()\<close> during which
  \<open>tcp_close\<close> answers \<open>e\<close>.
\<close>

datatype op =
  Recv pbuf | Read | ReadBuf nat | Peek | PeekBytes nat | PeekConsume nat | Discard | Close err_t

datatype out = OErr err_t | OByte byte | OBytes "byte list" | ONone

fun step :: "op \<Rightarrow> ClientContext \<Rightarrow> fault + (out \<times> ClientContext)" where
  "step (Recv pb) s = Inr (OErr (fst (recv pb s)), snd (recv pb s))"
| "step Read s = (case read s of Inl e \<Rightarrow> Inl e | Inr (c, s') \<Rightarrow> Inr (OByte c, s'))"
| "step (ReadBuf n) s = (case read_buf n s of Inl e \<Rightarrow> Inl e | Inr (cs, s') \<Rightarrow> Inr (OBytes cs, s'))"
| "step Peek s = (case peek s of Inl e \<Rightarrow> Inl e | Inr c \<Rightarrow> Inr (OByte c, s))"
| "step (PeekBytes n) s = (case peekBytes n s of Inl e \<Rightarrow> Inl e | Inr cs \<Rightarrow> Inr (OBytes cs, s))"
| "step (PeekConsume n) s = (case peekConsume n s of Inl e \<Rightarrow> Inl e | Inr s' \<Rightarrow> Inr (ONone, s'))"
| "step Discard s = Inr (ONone, discard_received s)"
| "step (Close e) s = Inr (OErr (fst (close e s)), snd (close e s))"

lemma peek_ok:
  assumes "rx_inv s"
  shows "\<exists>c. peek s = Inr c"
  using assms by (auto simp: peek_def rx_inv_def split: list.splits)

lemma peekBytes_head:
  assumes "rx_inv s" "rx_buf s = b # bs"
  shows "peekBytes n s = Inr (take n (drop (rx_buf_offset s) b))"
proof -
  note h = rx_inv_head[OF assms]
  have t: "tot_len (rx_buf s) \<le> 65535" "length b \<le> tot_len (rx_buf s)"
    using assms by (simp_all add: rx_inv_def tot_len_def)
  have m: "u32 (int (tot_len (rx_buf s)) - int (rx_buf_offset s)) = tot_len (rx_buf s) - rx_buf_offset s"
    using h t by (simp add: u32_id)
  have l: "u32 (int (length b) - int (rx_buf_offset s)) = length b - rx_buf_offset s"
    using h by (simp add: u32_id)
  show ?thesis
    using h(1) t(2) by (auto simp: peekBytes_def assms(2) Let_def m[unfolded assms(2)] l)
qed

text \<open>
  Claim C2. In every state of the receive chain and for every size, \<open>peek()\<close> and
  \<open>peekBytes(dst, n)\<close> leave the chain, the consumed offset and \<open>getSize()\<close> as they
  were, and both return when the chain's invariant holds. A \<open>read()\<close> right after a
  \<open>peek()\<close> returns the byte the \<open>peek()\<close> returned, and under the invariant both do
  return.
\<close>

theorem peek_keeps_cursor:
  "(\<forall>r s'. step Peek s = Inr (r, s') \<longrightarrow>
       rx_buf s' = rx_buf s \<and> rx_buf_offset s' = rx_buf_offset s \<and> getSize s' = getSize s) \<and>
   (\<forall>r s'. step (PeekBytes n) s = Inr (r, s') \<longrightarrow>
       rx_buf s' = rx_buf s \<and> rx_buf_offset s' = rx_buf_offset s \<and> getSize s' = getSize s) \<and>
   (rx_inv s \<longrightarrow> (\<exists>cs. step (PeekBytes n) s = Inr (OBytes cs, s))) \<and>
   (\<forall>r s1 r' s2. step Peek s = Inr (r, s1) \<and> step Read s1 = Inr (r', s2) \<longrightarrow> r' = r) \<and>
   (rx_inv s \<longrightarrow> (\<exists>c s2. step Peek s = Inr (OByte c, s) \<and> step Read s = Inr (OByte c, s2)))"
proof -
  have same: "peek s = map_sum id fst (read s)"
    by (auto simp: peek_def read_def consume_def Let_def split: list.splits)
  have a: "\<forall>r s'. step Peek s = Inr (r, s') \<longrightarrow>
       rx_buf s' = rx_buf s \<and> rx_buf_offset s' = rx_buf_offset s \<and> getSize s' = getSize s"
    by (auto split: sum.splits)
  have b: "\<forall>r s'. step (PeekBytes n) s = Inr (r, s') \<longrightarrow>
       rx_buf s' = rx_buf s \<and> rx_buf_offset s' = rx_buf_offset s \<and> getSize s' = getSize s"
    by (auto split: sum.splits)
  have c: "rx_inv s \<longrightarrow> (\<exists>cs. step (PeekBytes n) s = Inr (OBytes cs, s))"
  proof
    assume i: "rx_inv s"
    show "\<exists>cs. step (PeekBytes n) s = Inr (OBytes cs, s)"
    proof (cases "rx_buf s")
      case Nil
      then show ?thesis by (simp add: peekBytes_def)
    next
      case (Cons b bs)
      from peekBytes_head[OF i Cons] show ?thesis by simp
    qed
  qed
  have d: "\<forall>r s1 r' s2. step Peek s = Inr (r, s1) \<and> step Read s1 = Inr (r', s2) \<longrightarrow> r' = r"
    using same by (auto split: sum.splits)
  have e: "rx_inv s \<longrightarrow> (\<exists>c s2. step Peek s = Inr (OByte c, s) \<and> step Read s = Inr (OByte c, s2))"
  proof
    assume i: "rx_inv s"
    from peek_ok[OF i] obtain c where c: "peek s = Inr c" by blast
    with same obtain s2 where "read s = Inr (c, s2)"
      by (cases "read s") auto
    with c show "\<exists>c s2. step Peek s = Inr (OByte c, s) \<and> step Read s = Inr (OByte c, s2)"
      by simp
  qed
  from a b c d e show ?thesis by blast
qed

theorem peek_keeps_cursor_witness:
  "rx_inv (snd (recv [[7, 8], [9]] (new_context None False False))) \<and>
   (\<exists>cs. step (PeekBytes 2) (snd (recv [[7, 8], [9]] (new_context None False False))) =
      Inr (OBytes cs, snd (recv [[7, 8], [9]] (new_context None False False)))) \<and>
   (\<exists>c s2. step Peek (snd (recv [[7, 8], [9]] (new_context None False False))) =
        Inr (OByte c, snd (recv [[7, 8], [9]] (new_context None False False))) \<and>
      step Read (snd (recv [[7, 8], [9]] (new_context None False False))) = Inr (OByte c, s2))"
  using peek_keeps_cursor[of "snd (recv [[7, 8], [9]] (new_context None False False))" 2]
  by (simp add: recv_def new_context_def rx_inv_def tot_len_def)





section \<open>The invariant of the chain in every state reached\<close>

text \<open>
  \<open>chain_inv\<close> is the invariant as the data model words it: the chain is non-null
  exactly when unread bytes remain, and the offset is below the length of the head
  segment. \<open>op_ok\<close> is what an operation asks of its caller: an arriving chain has
  data in every segment and, with the chain already held, at most the 65535 bytes a
  16-bit \<open>tot_len\<close> can count; \<open>peekConsume\<close> is called as its comments say, after
  \<open>peekBuffer\<close> on a non-null chain, with at most \<open>peekAvailable()\<close> bytes. \<open>run\<close> is a
  run of operations, and \<open>ops_ok\<close> says that each of them is called so in the state
  it meets.
\<close>

definition chain_inv :: "ClientContext \<Rightarrow> bool" where
  "chain_inv s =
     (((rx_buf s \<noteq> []) = (0 < getSize s)) \<and>
      (rx_buf s \<noteq> [] \<longrightarrow> rx_buf_offset s < length (hd (rx_buf s))))"

fun op_ok :: "op \<Rightarrow> ClientContext \<Rightarrow> bool" where
  "op_ok (Recv pb) s =
     (pb = [] \<or>
      (list_all (\<lambda>b. b \<noteq> []) pb \<and>
       length (concat (rx_buf s)) + length (concat pb) \<le> 65535))"
| "op_ok (PeekConsume n) s = (rx_buf s \<noteq> [] \<and> n \<le> peekAvailable s)"
| "op_ok _ s = True"

fun run :: "op list \<Rightarrow> ClientContext \<Rightarrow> fault + ClientContext" where
  "run [] s = Inr s"
| "run (x # xs) s = (case step x s of Inl e \<Rightarrow> Inl e | Inr (r, s') \<Rightarrow> run xs s')"

fun ops_ok :: "op list \<Rightarrow> ClientContext \<Rightarrow> bool" where
  "ops_ok [] s = True"
| "ops_ok (x # xs) s =
     (op_ok x s \<and> (case step x s of Inl e \<Rightarrow> True | Inr (r, s') \<Rightarrow> ops_ok xs s'))"

lemma rx_inv_chain_inv: "rx_inv s \<Longrightarrow> chain_inv s"
proof -
  assume i: "rx_inv s"
  show ?thesis
  proof (cases "rx_buf s")
    case Nil
    then show ?thesis by (simp add: chain_inv_def getSize_def)
  next
    case (Cons b bs)
    note h = rx_inv_head[OF i Cons]
    from h(1,3) getSize_unread[OF i] Cons show ?thesis
      by (simp add: chain_inv_def)
  qed
qed

lemma rx_inv_cong:
  "rx_buf s' = rx_buf s \<Longrightarrow> rx_buf_offset s' = rx_buf_offset s \<Longrightarrow> rx_inv s' = rx_inv s"
  by (simp add: rx_inv_def cong: list.case_cong)

lemma rx_inv_notify: "rx_inv (notify_error s) = rx_inv s"
  by (rule rx_inv_cong) (simp_all add: notify_error_def)

lemma rx_inv_abort: "rx_inv (snd (abort s)) = rx_inv s"
  by (rule rx_inv_cong) (simp_all add: abort_def detach_def)

lemma rx_inv_close: "rx_inv (snd (close e s)) = rx_inv s"
  by (rule rx_inv_cong) (simp_all add: close_def detach_def Let_def)

lemma rx_inv_discard: "rx_inv (discard_received s)"
  by (simp add: rx_inv_def discard_received_def Let_def pbuf_free_def tcp_recved_def tot_len_def)

lemma recv_close_inv: "rx_inv s \<Longrightarrow> rx_inv (snd (recv [] s))"
  by (simp add: recv_def Let_def rx_inv_notify rx_inv_abort)

lemma step_keeps:
  assumes "rx_inv s" and "op_ok x s"
  shows "\<exists>r s'. step x s = Inr (r, s') \<and> rx_inv s'"
proof (cases x)
  case (Recv pb)
  show ?thesis
  proof (cases "pb = []")
    case True
    with Recv recv_close_inv[OF assms(1)] show ?thesis by simp
  next
    case False
    with Recv assms(2) have "pbuf_ok pb"
      "length (concat (rx_buf s)) + length (concat pb) \<le> 65535"
      by (simp_all add: pbuf_ok_def)
    from recv_inv[OF assms(1) this] Recv show ?thesis by simp
  qed
next
  case Read
  show ?thesis
  proof (cases "unread s = []")
    case True
    with rx_inv_chain_inv[OF assms(1)] getSize_unread[OF assms(1)] have "rx_buf s = []"
      by (simp add: chain_inv_def)
    with Read assms(1) show ?thesis by (simp add: read_def)
  next
    case False
    from read_inv[OF assms(1) False] Read show ?thesis by auto
  qed
next
  case (ReadBuf k)
  from read_buf_inv[OF assms(1), of k] ReadBuf show ?thesis by auto
next
  case Peek
  from peek_ok[OF assms(1)] Peek assms(1) show ?thesis by auto
next
  case (PeekBytes k)
  show ?thesis
  proof (cases "rx_buf s")
    case Nil
    with PeekBytes assms(1) show ?thesis by (simp add: peekBytes_def)
  next
    case (Cons b bs)
    from peekBytes_head[OF assms(1) Cons] PeekBytes assms(1) show ?thesis by simp
  qed
next
  case (PeekConsume k)
  with assms(2) obtain b bs where rx: "rx_buf s = b # bs"
    by (cases "rx_buf s") auto
  note h = rx_inv_head[OF assms(1) rx]
  have "peekAvailable s = length b - rx_buf_offset s"
    using h(1,2) rx by (simp add: peekAvailable_def u32_id)
  with assms(2) PeekConsume have "k \<le> length b - rx_buf_offset s" by simp
  from consume_inv[OF assms(1) rx this] PeekConsume show ?thesis
    by (auto simp: peekConsume_def)
next
  case Discard
  with rx_inv_discard show ?thesis by simp
next
  case (Close e)
  with assms(1) show ?thesis by (simp add: rx_inv_close)
qed

lemma run_keeps:
  "rx_inv s \<Longrightarrow> ops_ok xs s \<Longrightarrow> \<exists>s'. run xs s = Inr s' \<and> rx_inv s'"
proof (induction xs arbitrary: s)
  case Nil
  then show ?case by simp
next
  case (Cons x xs)
  from Cons.prems have ok: "op_ok x s" by simp
  from step_keeps[OF Cons.prems(1) ok] obtain r s1 where
    s1: "step x s = Inr (r, s1)" "rx_inv s1"
    by blast
  with Cons.prems(2) have "ops_ok xs s1" by simp
  from Cons.IH[OF s1(2) this] s1(1) show ?case by simp
qed

lemma ops_ok_take: "ops_ok xs s \<Longrightarrow> ops_ok (take n xs) s"
proof (induction xs arbitrary: s n)
  case Nil
  then show ?case by simp
next
  case (Cons x xs)
  show ?case
  proof (cases n)
    case 0
    then show ?thesis by simp
  next
    case (Suc m)
    with Cons.prems Cons.IH show ?thesis
      by (auto split: sum.splits)
  qed
qed

text \<open>
  Claim C7, amended. Start from a context whose receive chain is empty and run any
  operations on it: arrival callbacks whose chains carry data in every segment and
  keep the chain within 65535 bytes, the peer's close, \<open>read()\<close>, \<open>read(dst, n)\<close>,
  \<open>peek()\<close>, \<open>peekBytes\<close>, \<open>peekConsume\<close> called as documented, \<open>discard_received\<close>
  and \<open>close\<close>. Every operation returns, and in every state of the run the chain is
  non-null exactly when unread bytes remain, the offset is below the length of the
  head segment, and \<open>getSize()\<close> is the number of unread bytes.
\<close>

theorem chain_invariant_kept:
  assumes "rx_buf s = []" and "ops_ok xs s"
  shows "\<exists>s'. run (take n xs) s = Inr s' \<and> chain_inv s' \<and> getSize s' = length (unread s')"
proof -
  have "rx_inv s"
    using assms(1) by (simp add: rx_inv_def)
  from run_keeps[OF this ops_ok_take[OF assms(2), of n]] obtain s' where
    "run (take n xs) s = Inr s'" "rx_inv s'"
    by blast
  with rx_inv_chain_inv getSize_unread show ?thesis
    by blast
qed

theorem chain_invariant_kept_witness:
  "\<exists>s'. run (take 4 [Recv [[7, 8], [9]], Read, PeekConsume 1, Recv [[5]], ReadBuf 9, Discard])
        (new_context None False False) = Inr s' \<and>
      chain_inv s' \<and> getSize s' = length (unread s')"
  using chain_invariant_kept[of "new_context None False False"
      "[Recv [[7, 8], [9]], Read, PeekConsume 1, Recv [[5]], ReadBuf 9, Discard]" 4]
  by (simp add: new_context_def recv_def read_def consume_def peekConsume_def peekAvailable_def
      read_buf_def tot_len_def u32_def s32_def Let_def pbuf_free_def discard_received_def)

text \<open>
  An arriving chain with an empty segment leaves, after one \<open>read()\<close>, a non-null chain
  with nothing to read and the offset not below the length of its head. Two arrivals of
  65536 bytes together leave a non-null chain for which \<open>getSize()\<close> is 0.
\<close>

theorem chain_invariant_counterexample:
  "(\<exists>s'. run [Recv [[1], []], Read] (new_context None False False) = Inr s' \<and>
      \<not> chain_inv s') \<and>
   (\<exists>s'. run [Recv [replicate 40000 0], Recv [replicate 25536 0]]
        (new_context None False False) = Inr s' \<and> \<not> chain_inv s')"
  by (simp add: new_context_def recv_def read_def consume_def tot_len_def u32_def s32_def
      Let_def pbuf_free_def chain_inv_def getSize_def)

section \<open>Keep-alive\<close>

text \<open>
  \<open>keepAlive\<close> and its getters read and write the \<open>tcp_pcb\<close> without testing the
  handle, so a null handle is a fault. The arguments are \<open>uint16_t\<close>, \<open>uint16_t\<close> and
  \<open>uint8_t\<close>; the stack keeps the idle time and the interval in milliseconds in
  \<open>uint32_t\<close> fields, and the option bits in a \<open>uint8_t\<close>.
\<close>

definition SOF_KEEPALIVE :: "8 word" where
  "SOF_KEEPALIVE = 0x08"

definition keepAlive :: "16 word \<Rightarrow> 16 word \<Rightarrow> 8 word \<Rightarrow> ClientContext \<Rightarrow> fault + ClientContext" where
  "keepAlive idle_sec intv_sec count s =
     (case pcb s of
        None \<Rightarrow> Inl NullDeref
      | Some p \<Rightarrow>
          if idle_sec \<noteq> 0 \<and> intv_sec \<noteq> 0 \<and> count \<noteq> 0
          then Inr (s\<lparr>pcb := Some (p\<lparr>so_options := so_options p OR SOF_KEEPALIVE,
                                     keep_idle := 1000 * ucast idle_sec,
                                     keep_intvl := 1000 * ucast intv_sec,
                                     keep_cnt := ucast count\<rparr>)\<rparr>)
          else Inr (s\<lparr>pcb := Some (p\<lparr>so_options := so_options p AND NOT SOF_KEEPALIVE\<rparr>)\<rparr>))"

definition isKeepAliveEnabled :: "ClientContext \<Rightarrow> fault + bool" where
  "isKeepAliveEnabled s =
     (case pcb s of
        None \<Rightarrow> Inl NullDeref
      | Some p \<Rightarrow> Inr (so_options p AND SOF_KEEPALIVE \<noteq> 0))"

definition getKeepAliveIdle :: "ClientContext \<Rightarrow> fault + 16 word" where
  "getKeepAliveIdle s =
     (case pcb s of
        None \<Rightarrow> Inl NullDeref
      | Some p \<Rightarrow>
          Inr (if so_options p AND SOF_KEEPALIVE \<noteq> 0
               then ucast ((keep_idle p + 500) div 1000) else 0))"

definition getKeepAliveInterval :: "ClientContext \<Rightarrow> fault + 16 word" where
  "getKeepAliveInterval s =
     (case pcb s of
        None \<Rightarrow> Inl NullDeref
      | Some p \<Rightarrow>
          Inr (if so_options p AND SOF_KEEPALIVE \<noteq> 0
               then ucast ((keep_intvl p + 500) div 1000) else 0))"

definition getKeepAliveCount :: "ClientContext \<Rightarrow> fault + 8 word" where
  "getKeepAliveCount s =
     (case pcb s of
        None \<Rightarrow> Inl NullDeref
      | Some p \<Rightarrow> Inr (if so_options p AND SOF_KEEPALIVE \<noteq> 0 then ucast (keep_cnt p) else 0))"

lemma unat16_bound: "unat (i :: 16 word) < 65536"
  using unsigned_less[of i, where 'a = nat] by simp

lemma unat_ucast_16_32: "unat (ucast (i :: 16 word) :: 32 word) = unat i"
  using unat16_bound[of i] by (simp add: unsigned_ucast_eq take_bit_nat_eq_self)

lemma unat_ms: "unat (1000 * ucast (i :: 16 word) :: 32 word) = 1000 * unat i"
  using unat16_bound[of i] by (simp add: unat_word_ariths unat_ucast_16_32)

lemma ms_roundtrip: "ucast (((1000 * ucast (i :: 16 word) :: 32 word) + 500) div 1000) = i"
proof -
  have b: "unat i < 65536" by (rule unat16_bound)
  have "unat (((1000 * ucast i :: 32 word) + 500) div 1000) = unat i"
    using b by (simp add: unat_div unat_word_ariths unat_ucast_16_32)
  then have "unat (ucast (((1000 * ucast i :: 32 word) + 500) div 1000) :: 16 word) = unat i"
    using b by (simp add: unsigned_ucast_eq take_bit_nat_eq_self)
  then show ?thesis
    by (simp add: word_unat_eq_iff)
qed

lemma cnt_roundtrip: "(ucast (ucast (c :: 8 word) :: 32 word) :: 8 word) = c"
  by (simp add: ucast_up_ucast_id is_up)

lemma flag_set: "((x :: 8 word) OR y) AND y = y"
  by (auto simp: bit_eq_iff bit_and_iff bit_or_iff)

lemma flag_clear: "((x :: 8 word) AND NOT y) AND y = 0"
  by (auto simp: bit_eq_iff bit_and_iff bit_not_iff)

text \<open>
  Claim C4. On a context with a transport handle, \<open>keepAlive(idle, intv, count)\<close> with
  any argument zero disables keep-alive, and the three getters then return 0. With all
  three non-zero it enables keep-alive, stores the idle time and the interval as
  \<open>1000 * idle\<close> and \<open>1000 * intv\<close> milliseconds, and the getters return \<open>idle\<close>,
  \<open>intv\<close> and \<open>count\<close> themselves: the rounding to the nearest second gives each
  input back exactly.
\<close>

theorem keepAlive_roundtrip:
  assumes "pcb s = Some p"
  shows "\<exists>s' p'. keepAlive idle_sec intv_sec count s = Inr s' \<and> pcb s' = Some p' \<and>
    (if idle_sec = 0 \<or> intv_sec = 0 \<or> count = 0
     then isKeepAliveEnabled s' = Inr False \<and> getKeepAliveIdle s' = Inr 0 \<and>
          getKeepAliveInterval s' = Inr 0 \<and> getKeepAliveCount s' = Inr 0
     else isKeepAliveEnabled s' = Inr True \<and>
          unat (keep_idle p') = 1000 * unat idle_sec \<and>
          unat (keep_intvl p') = 1000 * unat intv_sec \<and>
          getKeepAliveIdle s' = Inr idle_sec \<and> getKeepAliveInterval s' = Inr intv_sec \<and>
          getKeepAliveCount s' = Inr count)"
proof (cases "idle_sec = 0 \<or> intv_sec = 0 \<or> count = 0")
  case True
  with assms show ?thesis
    by (auto simp: keepAlive_def isKeepAliveEnabled_def getKeepAliveIdle_def
        getKeepAliveInterval_def getKeepAliveCount_def flag_clear)
next
  case False
  have ne: "SOF_KEEPALIVE \<noteq> 0"
    by (simp add: SOF_KEEPALIVE_def)
  from False assms ne show ?thesis
    by (simp add: keepAlive_def isKeepAliveEnabled_def getKeepAliveIdle_def
        getKeepAliveInterval_def getKeepAliveCount_def flag_set unat_ms ms_roundtrip
        cnt_roundtrip)
qed

theorem keepAlive_roundtrip_witness:
  "(\<exists>s'. keepAlive 30 5 3 (new_context (Some \<lparr>pstate = ESTABLISHED, so_options = 0,
        keep_idle = 7200000, keep_intvl = 75000, keep_cnt = 9, snd_buf = 0\<rparr>) False False) = Inr s' \<and>
      getKeepAliveIdle s' = Inr 30 \<and> getKeepAliveInterval s' = Inr 5 \<and>
      getKeepAliveCount s' = Inr 3) \<and>
   (\<exists>s'. keepAlive 0 5 3 (new_context (Some \<lparr>pstate = ESTABLISHED, so_options = 8,
        keep_idle = 7200000, keep_intvl = 75000, keep_cnt = 9, snd_buf = 0\<rparr>) False False) = Inr s' \<and>
      getKeepAliveIdle s' = Inr 0 \<and> getKeepAliveInterval s' = Inr 0 \<and>
      getKeepAliveCount s' = Inr 0)"
  using keepAlive_roundtrip[of "new_context (Some \<lparr>pstate = ESTABLISHED, so_options = 0,
        keep_idle = 7200000, keep_intvl = 75000, keep_cnt = 9, snd_buf = 0\<rparr>) False False" _ 30 5 3]
    keepAlive_roundtrip[of "new_context (Some \<lparr>pstate = ESTABLISHED, so_options = 8,
        keep_idle = 7200000, keep_intvl = 75000, keep_cnt = 9, snd_buf = 0\<rparr>) False False" _ 0 5 3]
  by (auto simp: new_context_def)

section \<open>Reference count and teardown\<close>

text \<open>
  \<open>_refcnt\<close> is an \<open>int8_t\<close>. \<open>unref\<close> that brings it to zero discards the unread
  data, closes the transport (\<open>tcp_close\<close> answering \<open>tcp_close_err\<close>), calls the discard
  callback when there is one and deletes the context: what is left of a deleted
  context is the record of the calls it made. A run of \<open>ref()\<close> and \<open>unref()\<close> calls
  is a \<open>lifecycle\<close>; a call on a deleted context is a use after free.
\<close>

definition ref :: "ClientContext \<Rightarrow> ClientContext" where
  "ref s = s\<lparr>refcnt := refcnt s + 1\<rparr>"

datatype life = Live ClientContext | Deleted "call list"

definition unref :: "err_t \<Rightarrow> ClientContext \<Rightarrow> life" where
  "unref tcp_close_err s =
     (let s1 = s\<lparr>refcnt := refcnt s - 1\<rparr>
      in if refcnt s1 = 0
         then
           let s2 = discard_received s1;
               s3 = snd (close tcp_close_err s2);
               s4 = (if discard_cb s3 then s3\<lparr>calls := calls s3 @ [DISCARD_CB]\<rparr> else s3)
           in Deleted (calls s4 @ [DELETE_THIS])
         else Live s1)"

datatype rc_op = Ref | Unref err_t

fun lifecycle :: "rc_op list \<Rightarrow> life \<Rightarrow> fault + life" where
  "lifecycle [] l = Inr l"
| "lifecycle (x # xs) (Deleted cs) = Inl UseAfterFree"
| "lifecycle (Ref # xs) (Live s) = lifecycle xs (Live (ref s))"
| "lifecycle (Unref e # xs) (Live s) = lifecycle xs (unref e s)"

text \<open>
  \<open>counts c ops\<close> lists the number of references outstanding after each call of \<open>ops\<close>,
  starting from \<open>c\<close>. \<open>teardown e s\<close> is the teardown sequence in the order the data
  model gives it: discard the unread data, close the transport, call the discard
  callback, destroy the context.
\<close>

fun counts :: "int \<Rightarrow> rc_op list \<Rightarrow> int list" where
  "counts c [] = []"
| "counts c (Ref # xs) = (c + 1) # counts (c + 1) xs"
| "counts c (Unref e # xs) = (c - 1) # counts (c - 1) xs"

definition discard_calls :: "ClientContext \<Rightarrow> call list" where
  "discard_calls s =
     (if rx_buf s = [] then []
      else (if pcb s \<noteq> None then [TCP_RECVED (tot_len (rx_buf s))] else []) @ [PBUF_FREE])"

definition close_calls :: "err_t \<Rightarrow> ClientContext \<Rightarrow> call list" where
  "close_calls e s =
     (if pcb s \<noteq> None
      then [TCP_ARG_NULL, TCP_SENT_NULL, TCP_RECV_NULL, TCP_ERR_NULL, TCP_POLL_NULL, TCP_CLOSE] @
           (if e \<noteq> ERR_OK then [TCP_ABORT] else [])
      else [])"

definition teardown :: "err_t \<Rightarrow> ClientContext \<Rightarrow> call list" where
  "teardown e s =
     discard_calls s @ close_calls e s @ (if discard_cb s then [DISCARD_CB] else []) @
     [DELETE_THIS]"

lemma sint8_inc: "sint (w :: 8 word) \<le> 126 \<Longrightarrow> sint (w + 1) = sint w + 1"
  using sint_ge[of w] by (simp add: sint_word_ariths signed_take_bit_int_eq_self)

lemma sint8_dec: "- 127 \<le> sint (w :: 8 word) \<Longrightarrow> sint (w - 1) = sint w - 1"
  using sint_lt[of w] by (simp add: sint_word_ariths signed_take_bit_int_eq_self)

lemma word8_is_one: "((w :: 8 word) = 1) = (sint w = 1)"
proof -
  have "(w = 1) = (sint w = sint (1 :: 8 word))"
    by (rule word_eq_iff_signed)
  then show ?thesis by simp
qed

lemma counts_empty: "(counts c xs = []) = (xs = [])"
  by (induction c xs rule: counts.induct) auto

lemma teardown_refcnt: "teardown e (s\<lparr>refcnt := r\<rparr>) = teardown e s"
  by (simp add: teardown_def discard_calls_def close_calls_def)

lemma unref_last:
  "sint (refcnt s) = 1 \<Longrightarrow> unref e s = Deleted (calls s @ teardown e s)"
  by (simp add: unref_def Let_def word8_is_one teardown_def discard_calls_def close_calls_def
      discard_received_def close_def detach_def pbuf_free_def tcp_recved_def tot_len_mod)

lemma unref_live:
  "sint (refcnt s) \<noteq> 1 \<Longrightarrow> unref e s = Live (s\<lparr>refcnt := refcnt s - 1\<rparr>)"
  by (simp add: unref_def Let_def word8_is_one)

lemma lifecycle_general:
  assumes "sint (refcnt s) = c" and "0 \<le> c" and "c \<le> 127"
    and "\<forall>k \<in> set (counts c ops). 0 \<le> k \<and> k \<le> 127"
    and "\<forall>k \<in> set (butlast (counts c ops)). 0 < k"
  shows "\<exists>l. lifecycle ops (Live s) = Inr l \<and>
    (if ops \<noteq> [] \<and> last (counts c ops) = 0
     then \<exists>e. last ops = Unref e \<and> l = Deleted (calls s @ teardown e s)
     else \<exists>s'. l = Live s' \<and> sint (refcnt s') = (if ops = [] then c else last (counts c ops)) \<and>
            s' = s\<lparr>refcnt := refcnt s'\<rparr>)"
  using assms
proof (induction ops arbitrary: s c)
  case Nil
  then show ?case by simp
next
  case (Cons x xs)
  show ?case
  proof (cases x)
    case Ref
    from Cons.prems Ref have c1: "c + 1 \<le> 127" by simp
    with Cons.prems have s1: "sint (refcnt (ref s)) = c + 1"
      by (simp add: ref_def sint8_inc)
    have a: "\<forall>k \<in> set (counts (c + 1) xs). 0 \<le> k \<and> k \<le> 127"
      using Cons.prems(4) Ref by simp
    have b: "\<forall>k \<in> set (butlast (counts (c + 1) xs)). 0 < k"
      using Cons.prems(5) Ref by (auto split: if_splits)
    from Cons.IH[OF s1 _ c1 a b] Cons.prems(2)
    obtain l where l: "lifecycle xs (Live (ref s)) = Inr l"
      "if xs \<noteq> [] \<and> last (counts (c + 1) xs) = 0
       then \<exists>e. last xs = Unref e \<and> l = Deleted (calls (ref s) @ teardown e (ref s))
       else \<exists>s'. l = Live s' \<and> sint (refcnt s') = (if xs = [] then c + 1 else last (counts (c + 1) xs)) \<and>
            s' = (ref s)\<lparr>refcnt := refcnt s'\<rparr>"
      by auto
    have td: "teardown e (ref s) = teardown e s" for e
      by (simp add: ref_def teardown_refcnt)
    have cn: "xs \<noteq> [] \<Longrightarrow> counts (c + 1) xs \<noteq> []"
      by (simp add: counts_empty)
    show ?thesis
    proof (cases "xs = []")
      case True
      with l Ref Cons.prems(2) show ?thesis by (auto simp: ref_def)
    next
      case False
      with l Ref cn td show ?thesis by (auto simp: ref_def)
    qed
  next
    case (Unref e)
    from Cons.prems Unref have c1: "0 \<le> c - 1" by simp
    show ?thesis
    proof (cases "xs = []")
      case True
      show ?thesis
      proof (cases "c = 1")
        case True
        with \<open>xs = []\<close> Unref Cons.prems(1) show ?thesis
          by (simp add: unref_last)
      next
        case False
        with \<open>xs = []\<close> Unref Cons.prems(1) c1 show ?thesis
          by (simp add: unref_live sint8_dec)
      qed
    next
      case False
      then have cn: "counts (c - 1) xs \<noteq> []"
        by (simp add: counts_empty)
      with Cons.prems(5) Unref have pos: "0 < c - 1" by simp
      let ?s1 = "s\<lparr>refcnt := refcnt s - 1\<rparr>"
      have u: "unref e s = Live ?s1"
        using pos Cons.prems(1) by (simp add: unref_live)
      have s1: "sint (refcnt ?s1) = c - 1"
        using Cons.prems(1) c1 by (simp add: sint8_dec)
      have a: "\<forall>k \<in> set (counts (c - 1) xs). 0 \<le> k \<and> k \<le> 127"
        using Cons.prems(4) Unref by simp
      have b: "\<forall>k \<in> set (butlast (counts (c - 1) xs)). 0 < k"
        using Cons.prems(5) Unref cn by simp
      from Cons.IH[OF s1 c1 _ a b] Cons.prems(3)
      obtain l where l: "lifecycle xs (Live ?s1) = Inr l"
        "if xs \<noteq> [] \<and> last (counts (c - 1) xs) = 0
         then \<exists>e. last xs = Unref e \<and> l = Deleted (calls ?s1 @ teardown e ?s1)
         else \<exists>s'. l = Live s' \<and> sint (refcnt s') = (if xs = [] then c - 1 else last (counts (c - 1) xs)) \<and>
              s' = ?s1\<lparr>refcnt := refcnt s'\<rparr>"
        by auto
      from l False Unref u cn show ?thesis
        by (auto simp: teardown_refcnt)
    qed
  qed
qed

text \<open>
  Claim C8, amended. Take a context whose count is 0 and a run of \<open>ref()\<close> and
  \<open>unref()\<close> calls during which the number of outstanding references stays within 0
  and 127 and is positive until the last call. The run goes through; the count kept
  in the context is the number of outstanding references, so it is never negative;
  when the last call brings the number to zero it is an \<open>unref()\<close> that performs the
  teardown sequence, once, and otherwise no call of the run performs any of it: the
  context is live, with its calls, handle and chain untouched.
\<close>

theorem refcount_teardown_once:
  assumes "refcnt s = 0"
    and "\<forall>k \<in> set (counts 0 ops). 0 \<le> k \<and> k \<le> 127"
    and "\<forall>k \<in> set (butlast (counts 0 ops)). 0 < k"
  shows "\<exists>l. lifecycle ops (Live s) = Inr l \<and>
    (if ops \<noteq> [] \<and> last (counts 0 ops) = 0
     then \<exists>e. last ops = Unref e \<and> l = Deleted (calls s @ teardown e s) \<and>
              count_list (teardown e s) DELETE_THIS = 1
     else \<exists>s'. l = Live s' \<and> 0 \<le> sint (refcnt s') \<and>
            sint (refcnt s') = (if ops = [] then 0 else last (counts 0 ops)) \<and>
            calls s' = calls s \<and> pcb s' = pcb s \<and> rx_buf s' = rx_buf s)"
proof -
  have z: "sint (refcnt s) = 0"
    using assms(1) by simp
  have once: "count_list (teardown e s) DELETE_THIS = 1" for e
    by (simp add: teardown_def discard_calls_def close_calls_def)
  have lastc: "ops \<noteq> [] \<Longrightarrow> 0 \<le> last (counts 0 ops)"
    using assms(2) by (simp add: counts_empty)
  from lifecycle_general[OF z _ _ assms(2,3)] obtain l where
    l: "lifecycle ops (Live s) = Inr l"
      "if ops \<noteq> [] \<and> last (counts 0 ops) = 0
       then \<exists>e. last ops = Unref e \<and> l = Deleted (calls s @ teardown e s)
       else \<exists>s'. l = Live s' \<and> sint (refcnt s') = (if ops = [] then 0 else last (counts 0 ops)) \<and>
            s' = s\<lparr>refcnt := refcnt s'\<rparr>"
    by auto
  show ?thesis
  proof (cases "ops \<noteq> [] \<and> last (counts 0 ops) = 0")
    case True
    with l once show ?thesis by auto
  next
    case False
    with l obtain s' where s': "l = Live s'"
      "sint (refcnt s') = (if ops = [] then 0 else last (counts 0 ops))"
      "s' = s\<lparr>refcnt := refcnt s'\<rparr>"
      by auto
    have "calls s' = calls s" "pcb s' = pcb s" "rx_buf s' = rx_buf s"
      by (subst s'(3), simp)+
    moreover have "0 \<le> sint (refcnt s')"
      using s'(2) lastc by (cases "ops = []") simp_all
    ultimately show ?thesis
      using l(1) s'(1,2) False by auto
  qed
qed

theorem refcount_teardown_once_witness:
  "lifecycle [Ref, Ref, Unref ERR_OK, Unref ERR_OK]
     (Live (new_context (Some \<lparr>pstate = ESTABLISHED, so_options = 0, keep_idle = 0,
        keep_intvl = 0, keep_cnt = 0, snd_buf = 0\<rparr>) True False)) =
   Inr (Deleted [TCP_ARG_NULL, TCP_SENT_NULL, TCP_RECV_NULL, TCP_ERR_NULL, TCP_POLL_NULL,
     TCP_CLOSE, DISCARD_CB, DELETE_THIS]) \<and>
   (\<exists>s'. lifecycle [Ref, Ref, Unref ERR_OK]
     (Live (new_context (Some \<lparr>pstate = ESTABLISHED, so_options = 0, keep_idle = 0,
        keep_intvl = 0, keep_cnt = 0, snd_buf = 0\<rparr>) True False)) = Inr (Live s') \<and>
      sint (refcnt s') = 1 \<and> calls s' = [])"
  using refcount_teardown_once[of "new_context (Some \<lparr>pstate = ESTABLISHED, so_options = 0,
        keep_idle = 0, keep_intvl = 0, keep_cnt = 0, snd_buf = 0\<rparr>) True False"
      "[Ref, Ref, Unref ERR_OK, Unref ERR_OK]"]
    refcount_teardown_once[of "new_context (Some \<lparr>pstate = ESTABLISHED, so_options = 0,
        keep_idle = 0, keep_intvl = 0, keep_cnt = 0, snd_buf = 0\<rparr>) True False"
      "[Ref, Ref, Unref ERR_OK]"]
  by (simp add: new_context_def teardown_def discard_calls_def close_calls_def ref_def unref_def
      Let_def discard_received_def close_def detach_def)

lemma lifecycle_refs:
  "lifecycle (replicate n Ref @ xs) (Live s) =
   lifecycle xs (Live (s\<lparr>refcnt := refcnt s + of_nat n\<rparr>))"
proof (induction n arbitrary: s)
  case 0
  show ?case by simp
next
  case (Suc n)
  show ?case
    by (simp add: Suc.IH ref_def ac_simps)
qed

theorem refcount_counterexample:
  "(\<exists>s'. lifecycle (replicate 128 Ref) (Live (new_context None False False)) = Inr (Live s') \<and>
      sint (refcnt s') = - 128) \<and>
   lifecycle (replicate 257 Ref @ [Unref ERR_OK]) (Live (new_context None False False)) =
     Inr (Deleted [DELETE_THIS])"
proof -
  have a: "lifecycle (replicate 128 Ref) (Live (new_context None False False)) =
      Inr (Live ((new_context None False False)\<lparr>refcnt := 128\<rparr>))"
    using lifecycle_refs[of 128 "[]" "new_context None False False"]
    by (simp add: new_context_def)
  have b: "lifecycle (replicate 257 Ref @ [Unref ERR_OK]) (Live (new_context None False False)) =
      Inr (Deleted [DELETE_THIS])"
    using lifecycle_refs[of 257 "[Unref ERR_OK]" "new_context None False False"]
    by (simp add: new_context_def unref_def Let_def discard_received_def close_def)
  from a b show ?thesis by simp
qed

section \<open>The other callbacks\<close>

text \<open>
  \<open>_connected\<close>, \<open>_error\<close>, \<open>_write_some_from_cb\<close>, \<open>_acked\<close> and \<open>_poll\<close>, as far as they
  change the context.
\<close>

definition connected :: "ClientContext \<Rightarrow> ClientContext" where
  "connected s = (if connect_pending s then s\<lparr>connect_pending := False\<rparr> else s)"

definition error :: "ClientContext \<Rightarrow> ClientContext" where
  "error s =
     notify_error
       (s\<lparr>calls := calls s @ [TCP_ARG_NULL, TCP_SENT_NULL, TCP_RECV_NULL, TCP_ERR_NULL],
          pcb := None\<rparr>)"

definition write_some_from_cb :: "ClientContext \<Rightarrow> ClientContext" where
  "write_some_from_cb s = (if send_waiting s then s\<lparr>send_waiting := False\<rparr> else s)"

definition acked :: "ClientContext \<Rightarrow> ClientContext" where
  "acked s = write_some_from_cb s"

definition poll :: "ClientContext \<Rightarrow> ClientContext" where
  "poll s = write_some_from_cb s"

section \<open>Time, and the stack at work during a wait\<close>

text \<open>
  A wait runs in a world: the clock \<open>now\<close> in milliseconds, the context, and a
  \<open>script\<close> of what the stack does while the context yields, one list of callbacks
  per yield. Each callback runs to completion before the next. Before it calls
  \<open>_connected\<close> the stack has set the handle's state to \<open>ESTABLISHED\<close>, and before it
  reports the peer's close to \<open>CLOSE_WAIT\<close>.
\<close>

datatype event = EvConnected | EvError | EvRecv pbuf | EvAcked | EvPoll

record world =
  now :: nat
  ctx :: ClientContext
  script :: "event list list"

definition set_pstate :: "tcp_state \<Rightarrow> ClientContext \<Rightarrow> ClientContext" where
  "set_pstate st s = s\<lparr>pcb := map_option (\<lambda>p. p\<lparr>pstate := st\<rparr>) (pcb s)\<rparr>"

fun fire :: "event \<Rightarrow> ClientContext \<Rightarrow> ClientContext" where
  "fire EvConnected s = connected (set_pstate ESTABLISHED s)"
| "fire EvError s = error s"
| "fire (EvRecv pb) s = snd (recv pb (if pb = [] then set_pstate CLOSE_WAIT s else s))"
| "fire EvAcked s = acked s"
| "fire EvPoll s = poll s"

text \<open>
  Modelled from the spec: \<open>millis\<close>, the runtime's millisecond clock, is not among these
  sources. It reads the clock as a \<open>uint32_t\<close>.
\<close>

definition millis :: "world \<Rightarrow> nat" where
  "millis w = now w mod 2 ^ 32"

text \<open>
  Modelled from the spec: \<open>delay\<close>, the runtime's yield, is not among these sources.
  \<open>delay ms\<close> advances the clock by exactly \<open>ms\<close> and lets the stack run, which fires
  the callbacks the script lists for this yield, in order.
\<close>

definition delay :: "nat \<Rightarrow> world \<Rightarrow> world" where
  "delay ms w =
     w\<lparr>now := now w + ms,
       ctx := fold fire (case script w of [] \<Rightarrow> [] | es # _ \<Rightarrow> es) (ctx w),
       script := tl (script w)\<rparr>"

section \<open>The cooperative wait\<close>

text \<open>
  \<open>esp_delay\<close>, with \<open>tmo_ms\<close> for its \<open>timeout_ms\<close>: \<open>start_ms\<close> is read once, and the
  elapsed time is the \<open>uint32_t\<close> difference to it. The loop need not end, so its
  result is optional.
\<close>

partial_function (option) esp_delay_loop ::
  "nat \<Rightarrow> nat \<Rightarrow> (world \<Rightarrow> bool) \<Rightarrow> nat \<Rightarrow> world \<Rightarrow> world option" where
  "esp_delay_loop start_ms tmo_ms blocked intvl_ms w =
     (if u32 (int (millis w) - int start_ms) < tmo_ms \<and> blocked w
      then esp_delay_loop start_ms tmo_ms blocked intvl_ms (delay intvl_ms w)
      else Some w)"

definition esp_delay :: "nat \<Rightarrow> (world \<Rightarrow> bool) \<Rightarrow> nat \<Rightarrow> world \<Rightarrow> world option" where
  "esp_delay tmo_ms blocked intvl_ms w =
     esp_delay_loop (millis w) tmo_ms blocked intvl_ms w"

text \<open>
  The predicate \<open>connect\<close> waits on, and a world to wait in: a context whose connect is
  pending, with a stack that never calls back.
\<close>

definition connect_blocked :: "world \<Rightarrow> bool" where
  "connect_blocked w = connect_pending (ctx w)"

definition stalled :: world where
  "stalled = \<lparr>now = 0, ctx = (new_context None False False)\<lparr>connect_pending := True\<rparr>, script = []\<rparr>"

lemma u32_elapsed:
  assumes "n0 \<le> n" "n - n0 < 2 ^ 32"
  shows "u32 (int (n mod 2 ^ 32) - int (n0 mod 2 ^ 32)) = n - n0"
proof -
  have "(int (n mod 2 ^ 32) - int (n0 mod 2 ^ 32)) mod 2 ^ 32 = (int n - int n0) mod 2 ^ 32"
    by (simp add: zmod_int mod_diff_eq)
  also have "\<dots> = int (n - n0) mod 2 ^ 32"
    using assms(1) by (simp add: of_nat_diff)
  also have "\<dots> = int (n - n0)"
    using assms(2) by simp
  finally show ?thesis
    by (simp add: u32_def)
qed

lemma esp_delay_loop_bounded:
  assumes "1 \<le> intvl" "tmo + intvl \<le> 2 ^ 32"
    and step: "\<And>w. I w \<Longrightarrow> n0 \<le> now w \<Longrightarrow> now w - n0 < tmo \<Longrightarrow> blocked w \<Longrightarrow> I (delay intvl w)"
  shows "I w \<Longrightarrow> n0 \<le> now w \<Longrightarrow> now w - n0 < tmo + intvl \<Longrightarrow>
    \<exists>w'. esp_delay_loop (n0 mod 2 ^ 32) tmo blocked intvl w = Some w' \<and> now w \<le> now w' \<and>
       now w' - n0 < tmo + intvl \<and> (\<not> blocked w' \<or> tmo \<le> now w' - n0) \<and> I w'"
proof (induction "tmo - (now w - n0)" arbitrary: w rule: less_induct)
  case less
  have "now w - n0 < 2 ^ 32"
    using less.prems(3) assms(2) by (rule less_le_trans)
  from u32_elapsed[OF less.prems(2) this]
  have el: "u32 (int (millis w) - int (n0 mod 2 ^ 32)) = now w - n0"
    by (simp only: millis_def)
  show ?case
  proof (cases "now w - n0 < tmo \<and> blocked w")
    case True
    let ?w1 = "delay intvl w"
    have n1: "now ?w1 = now w + intvl"
      by (simp add: delay_def)
    have "tmo - (now ?w1 - n0) < tmo - (now w - n0)"
      using True assms(1) less.prems(2) unfolding n1 by linarith
    moreover have "n0 \<le> now ?w1"
      using less.prems(2) by (simp add: n1)
    moreover have "now ?w1 - n0 < tmo + intvl"
      using True less.prems(2) unfolding n1 by linarith
    moreover have "I ?w1"
      using step[OF less.prems(1,2)] True by simp
    ultimately obtain w' where
      w': "esp_delay_loop (n0 mod 2 ^ 32) tmo blocked intvl ?w1 = Some w'" "now ?w1 \<le> now w'"
        "now w' - n0 < tmo + intvl" "\<not> blocked w' \<or> tmo \<le> now w' - n0" "I w'"
      using less.hyps[of ?w1] by blast
    have "esp_delay_loop (n0 mod 2 ^ 32) tmo blocked intvl w =
          esp_delay_loop (n0 mod 2 ^ 32) tmo blocked intvl ?w1"
      using True el by (subst esp_delay_loop.simps) simp
    with w' n1 show ?thesis by auto
  next
    case False
    then have "esp_delay_loop (n0 mod 2 ^ 32) tmo blocked intvl w = Some w"
      using el by (subst esp_delay_loop.simps) auto
    with False less.prems show ?thesis by auto
  qed
qed

text \<open>
  Claim C9, amended. For every timeout and every retry interval of at least 1 whose sum
  is at most \<open>2 ^ 32\<close>, and every polled predicate, \<open>esp_delay\<close> returns, and the time
  it has waited is at most the timeout plus one interval; when it returns, the
  predicate is false or the timeout has elapsed.
\<close>

theorem esp_delay_bounded:
  assumes "1 \<le> intvl_ms" and "tmo_ms + intvl_ms \<le> 2 ^ 32"
  shows "\<exists>w'. esp_delay tmo_ms blocked intvl_ms w = Some w' \<and> now w \<le> now w' \<and>
    now w' - now w \<le> tmo_ms + intvl_ms \<and> (\<not> blocked w' \<or> tmo_ms \<le> now w' - now w)"
proof -
  have "now w - now w < tmo_ms + intvl_ms"
    using assms(1) by simp
  from esp_delay_loop_bounded[where I = "\<lambda>w. True", OF assms _ _ _ this, of blocked]
  show ?thesis
    by (auto simp: esp_delay_def millis_def)
qed

theorem esp_delay_bounded_witness:
  "\<exists>w'. esp_delay 3 connect_blocked 1 stalled = Some w' \<and> now stalled \<le> now w' \<and>
     now w' - now stalled \<le> 3 + 1 \<and> (\<not> connect_blocked w' \<or> 3 \<le> now w' - now stalled)"
  using esp_delay_bounded[of 1 3 connect_blocked stalled]
  by simp

lemma esp_delay_loop_never:
  assumes "esp_delay_loop st t b i w = Some y"
    and "st = 0" and "t = 4294967295" and "b = connect_blocked" and "i = 2"
    and "even (now w)" and "script w = []" and "connect_pending (ctx w)"
  shows False
  using assms
proof (induction st t b i w y rule: esp_delay_loop.raw_induct[rotated 1, consumes 1])
  case (1 f st t b i w y)
  have st: "st = 0" and t: "t = 4294967295" and b: "b = connect_blocked" and i: "i = 2"
    and ev: "even (now w)" and sc: "script w = []" and cp: "connect_pending (ctx w)"
    by fact+
  have body: "(if u32 (int (millis w) - int st) < t \<and> b w then f st t b i (delay i w) else Some w) =
      Some y"
    by fact
  have "even (now w mod 2 ^ 32)"
    using ev by (simp add: even_mod_2_iff dvd_mod_iff)
  then have "now w mod 2 ^ 32 \<noteq> 4294967295"
    by (metis even_numeral odd_numeral even_iff_mod_2_eq_zero dvd_refl)
  moreover have "now w mod 2 ^ 32 < 4294967296"
    by simp
  ultimately have lt: "u32 (int (millis w) - int st) < t"
    using st t by (simp add: millis_def u32_def nat_mod_distrib)
  have "f st t b i (delay i w) = Some y"
    using body lt b cp by (simp add: connect_blocked_def)
  moreover have "even (now (delay i w))" "script (delay i w) = []"
    "connect_pending (ctx (delay i w))"
    using i ev sc cp by (simp_all add: delay_def)
  ultimately show ?case
    using "1.IH"[of st t b i "delay i w" y] st t b i by simp
qed

text \<open>
  With a timeout of \<open>0xFFFFFFFF\<close> and an interval of 2 the elapsed time, taken modulo
  \<open>2 ^ 32\<close>, is always even, so it never reaches the timeout: on a context whose
  connect stays pending, the wait does not end.
\<close>

theorem esp_delay_counterexample:
  "esp_delay 4294967295 connect_blocked 2 stalled = None"
proof (cases "esp_delay 4294967295 connect_blocked 2 stalled")
  case None
  then show ?thesis .
next
  case (Some y)
  then have "esp_delay_loop 0 4294967295 connect_blocked 2 stalled = Some y"
    by (simp add: esp_delay_def millis_def stalled_def)
  from esp_delay_loop_never[OF this] show ?thesis
    by (simp add: stalled_def new_context_def)
qed

section \<open>Connect\<close>

text \<open>
  \<open>connect\<close>; \<open>tcp_connect_err\<close> is what the stack's \<open>tcp_connect\<close> answers, and when
  it answers \<open>ERR_OK\<close> it has put the handle into \<open>SYN_SENT\<close>. The value returned is
  1 for success and 0 for failure. An event is \<open>quiet\<close> when it is none of the
  connected callback, the error callback and the peer's close, which are the ones that
  end the wait of \<open>connect\<close>.
\<close>

definition state :: "ClientContext \<Rightarrow> tcp_state" where
  "state s =
     (case pcb s of
        None \<Rightarrow> CLOSED
      | Some p \<Rightarrow> if pstate p = CLOSE_WAIT \<or> pstate p = CLOSING then CLOSED else pstate p)"

definition connect :: "err_t \<Rightarrow> world \<Rightarrow> (nat \<times> world) option" where
  "connect tcp_connect_err w =
     (if tcp_connect_err \<noteq> ERR_OK then Some (0, w)
      else
        let w1 = w\<lparr>ctx := (set_pstate SYN_SENT (ctx w))
                     \<lparr>connect_pending := True, op_start_time := millis w\<rparr>\<rparr>
        in case esp_delay (timeout_ms (ctx w1)) connect_blocked 1 w1 of
             None \<Rightarrow> None
           | Some w2 \<Rightarrow>
               let w3 = w2\<lparr>ctx := (ctx w2)\<lparr>connect_pending := False\<rparr>\<rparr>
               in if pcb (ctx w3) = None then Some (0, w3)
                  else if state (ctx w3) \<noteq> ESTABLISHED
                  then Some (0, w3\<lparr>ctx := snd (abort (ctx w3))\<rparr>)
                  else Some (1, w3))"

fun quiet :: "event \<Rightarrow> bool" where
  "quiet EvConnected = False"
| "quiet EvError = False"
| "quiet (EvRecv pb) = (pb \<noteq> [])"
| "quiet EvAcked = True"
| "quiet EvPoll = True"

definition waiting :: "nat \<Rightarrow> nat \<Rightarrow> tcp_pcb option \<Rightarrow> call list \<Rightarrow> world \<Rightarrow> bool" where
  "waiting n0 tmo p cs w =
     (connect_pending (ctx w) \<and> pcb (ctx w) = p \<and> calls (ctx w) = cs \<and>
      (\<forall>es \<in> set (take (tmo - (now w - n0)) (script w)). \<forall>e \<in> set es. quiet e))"

lemma fire_quiet:
  "quiet e \<Longrightarrow> connect_pending (fire e s) = connect_pending s \<and> pcb (fire e s) = pcb s \<and>
     calls (fire e s) = calls s \<and> timeout_ms (fire e s) = timeout_ms s"
  by (cases e) (auto simp: recv_def acked_def poll_def write_some_from_cb_def)

lemma fold_fire_quiet:
  "\<forall>e \<in> set es. quiet e \<Longrightarrow>
   connect_pending (fold fire es s) = connect_pending s \<and> pcb (fold fire es s) = pcb s \<and>
     calls (fold fire es s) = calls s \<and> timeout_ms (fold fire es s) = timeout_ms s"
  by (induction es arbitrary: s) (simp_all add: fire_quiet)

lemma waiting_delay:
  assumes "waiting n0 tmo p cs w" "n0 \<le> now w" "now w - n0 < tmo"
  shows "waiting n0 tmo p cs (delay 1 w)"
proof (cases "script w")
  case Nil
  with assms show ?thesis
    by (simp add: waiting_def delay_def)
next
  case (Cons es rest)
  from assms(3) obtain k where k: "tmo - (now w - n0) = Suc k"
    by (cases "tmo - (now w - n0)") auto
  have k1: "tmo - (now w + 1 - n0) = k"
    using k assms(2) by simp
  from assms(1) Cons k have q: "\<forall>e \<in> set es. quiet e"
    and r: "\<forall>es \<in> set (take k rest). \<forall>e \<in> set es. quiet e"
    by (simp_all add: waiting_def)
  from fold_fire_quiet[OF q, of "ctx w"] assms(1) r Cons k1 show ?thesis
    by (simp add: waiting_def delay_def)
qed

text \<open>
  Claim C3. Let \<open>connect\<close> be called on a context with a transport handle, let
  \<open>tcp_connect\<close> accept the request, and let no connected callback, error callback or
  peer's close fire during the yields of the configured timeout. Then \<open>connect\<close>
  returns 0 once the timeout has elapsed (and within one millisecond of it), the
  transport handle is null afterwards, and the last calls made to the stack detach the
  callbacks and issue \<open>tcp_abort\<close>.
\<close>

theorem connect_timeout:
  assumes "pcb (ctx w) \<noteq> None"
    and "timeout_ms (ctx w) < 2 ^ 32"
    and "\<forall>es \<in> set (take (timeout_ms (ctx w)) (script w)). \<forall>e \<in> set es. quiet e"
  shows "\<exists>w'. connect ERR_OK w = Some (0, w') \<and> pcb (ctx w') = None \<and>
     \<not> connect_pending (ctx w') \<and>
     calls (ctx w') = calls (ctx w) @
       [TCP_ARG_NULL, TCP_SENT_NULL, TCP_RECV_NULL, TCP_ERR_NULL, TCP_POLL_NULL, TCP_ABORT] \<and>
     timeout_ms (ctx w) \<le> now w' - now w \<and> now w' - now w \<le> timeout_ms (ctx w) + 1"
proof -
  define T where "T = timeout_ms (ctx w)"
  define w1 where "w1 = w\<lparr>ctx := (set_pstate SYN_SENT (ctx w))
                     \<lparr>connect_pending := True, op_start_time := millis w\<rparr>\<rparr>"
  from assms(1) obtain p0 where p0: "pcb (ctx w) = Some p0" by auto
  define p where "p = p0\<lparr>pstate := SYN_SENT\<rparr>"
  have w1: "now w1 = now w" "timeout_ms (ctx w1) = T" "millis w1 = now w mod 2 ^ 32"
    "script w1 = script w" "pcb (ctx w1) = Some p" "calls (ctx w1) = calls (ctx w)"
    "connect_pending (ctx w1)"
    by (simp_all add: w1_def T_def millis_def set_pstate_def p0 p_def)
  have I1: "waiting (now w) T (Some p) (calls (ctx w)) w1"
    using assms(3) w1 by (simp add: waiting_def T_def)
  have b: "(1::nat) \<le> 1" "T + 1 \<le> 2 ^ 32"
    using assms(2) by (simp_all add: T_def)
  have e0: "now w1 - now w < T + 1"
    by (simp add: w1)
  have n0: "now w \<le> now w1"
    by (simp add: w1)
  from esp_delay_loop_bounded[where I = "waiting (now w) T (Some p) (calls (ctx w))"
      and blocked = connect_blocked, OF b waiting_delay I1 n0 e0]
  obtain w2 where w2: "esp_delay_loop (now w mod 2 ^ 32) T connect_blocked 1 w1 = Some w2"
    "now w1 \<le> now w2" "now w2 - now w < T + 1"
    "\<not> connect_blocked w2 \<or> T \<le> now w2 - now w"
    "waiting (now w) T (Some p) (calls (ctx w)) w2"
    by blast
  from w2(5) have c2: "connect_pending (ctx w2)" "pcb (ctx w2) = Some p"
    "calls (ctx w2) = calls (ctx w)"
    by (simp_all add: waiting_def)
  with w2(4) have late: "T \<le> now w2 - now w"
    by (simp add: connect_blocked_def)
  have d: "esp_delay (timeout_ms (ctx w1)) connect_blocked 1 w1 = Some w2"
    using w2(1) by (simp add: esp_delay_def w1)
  have st: "state ((ctx w2)\<lparr>connect_pending := False\<rparr>) = SYN_SENT"
    by (simp add: state_def c2 p_def)
  define w' where "w' = w2\<lparr>ctx := snd (abort ((ctx w2)\<lparr>connect_pending := False\<rparr>))\<rparr>"
  have "connect ERR_OK w = Some (0, w')"
    using d st c2(2) by (simp add: connect_def Let_def w1_def[symmetric] w'_def)
  moreover have "pcb (ctx w') = None" "\<not> connect_pending (ctx w')"
    "calls (ctx w') = calls (ctx w) @
       [TCP_ARG_NULL, TCP_SENT_NULL, TCP_RECV_NULL, TCP_ERR_NULL, TCP_POLL_NULL, TCP_ABORT]"
    "now w' = now w2"
    by (simp_all add: w'_def abort_def detach_def c2)
  ultimately show ?thesis
    using late w2(3) by (auto simp: T_def)
qed

theorem connect_timeout_witness:
  "\<exists>w'. connect ERR_OK
       \<lparr>now = 10, ctx = (new_context (Some \<lparr>pstate = CLOSED, so_options = 0, keep_idle = 0,
           keep_intvl = 0, keep_cnt = 0, snd_buf = 0\<rparr>) False False)\<lparr>timeout_ms := 3\<rparr>,
        script = [[EvPoll], [], [EvPoll], [EvConnected]]\<rparr> = Some (0, w') \<and>
     pcb (ctx w') = None \<and>
     calls (ctx w') =
       [TCP_ARG_NULL, TCP_SENT_NULL, TCP_RECV_NULL, TCP_ERR_NULL, TCP_POLL_NULL, TCP_ABORT] \<and>
     3 \<le> now w' - 10 \<and> now w' - 10 \<le> 4"
  using connect_timeout[of
       "\<lparr>now = 10, ctx = (new_context (Some \<lparr>pstate = CLOSED, so_options = 0, keep_idle = 0,
           keep_intvl = 0, keep_cnt = 0, snd_buf = 0\<rparr>) False False)\<lparr>timeout_ms := 3\<rparr>,
        script = [[EvPoll], [], [EvPoll], [EvConnected]]\<rparr>"]
  by (auto simp: new_context_def)

section \<open>The incremental send loop\<close>
































end
